theory Spec2Isabelle
  imports Main
begin

section \<open>The persistent store\<close>

text \<open>
  The route handlers of \<^verbatim>\<open>src/app/api/collaborate/invitations/route.ts\<close> work on
  the tables \<^verbatim>\<open>teams\<close>, \<^verbatim>\<open>user_profiles\<close>, \<^verbatim>\<open>team_members\<close>,
  \<^verbatim>\<open>team_invitations\<close> and \<^verbatim>\<open>chat_messages\<close> and call the stored procedures
  \<^verbatim>\<open>can_assign_role\<close>, \<^verbatim>\<open>check_invitation_limit\<close>, \<^verbatim>\<open>update_invitation_limit\<close>
  and \<^verbatim>\<open>create_notification\<close>. A table is a list of rows. Identifiers generated
  by the store are natural numbers, timestamps are milliseconds, roles and actions
  are the strings the handlers compare. Request strings are lists of code units
  below 256; a stored name or message text is a list of UTF-16 code units, since
  upper-casing a letter can leave that range.
\<close>

datatype inv_status = pending | accepted | rejected | cancelled | expired

record team =
  tid :: nat
  team_name :: string
  owner_id :: nat
  is_public :: bool

record user_profile =
  pid :: nat
  email :: string
  full_name :: "nat list"
  profile_status :: string
  last_active :: nat

record team_member =
  m_team_id :: nat
  m_user_id :: nat
  m_role :: string
  m_joined_at :: "nat option"
  m_created_at :: "nat option"

record team_invitation =
  inv_id :: nat
  team_id :: nat
  inviter_id :: nat
  invitee_id :: nat
  invitee_email :: string
  inv_role :: string
  personal_message :: "string option"
  status :: inv_status
  created_at :: nat
  updated_at :: nat
  expires_at :: nat

record chat_message =
  c_team_id :: nat
  c_user_id :: "nat option"
  c_sender_id :: "nat option"
  c_content :: "nat list"
  c_type :: string
  c_created_at :: nat

text \<open>
  One row per call of the procedure \<^verbatim>\<open>create_notification\<close>: the target user, the
  notification type and title, and the identifiers of its data payload. The
  human-readable message and the action URL are formatted from the same fields and
  are left out.
\<close>

record notification =
  target_user_id :: nat
  notification_type :: string
  notification_title :: string
  data_team_id :: nat
  data_invitation_id :: "nat option"

record store =
  teams :: "team list"
  user_profiles :: "user_profile list"
  team_members :: "team_member list"
  team_invitations :: "team_invitation list"
  chat_messages :: "chat_message list"
  notifications :: "notification list"
  invitation_limits :: "(nat \<times> nat \<times> nat) list"

text \<open>
  The store calls whose error result a handler inspects, and the two rate limit
  procedures, of which the invitation handler reads the data only: without data
  the check counts as refused, and a failed update is lost without notice. A call
  listed in \<open>failing\<close> reports an error for this request; every other call is
  carried out.
  The remaining fields of \<open>env\<close> are what a request reads from outside the store:
  \<open>now\<close> is the server clock (\<^verbatim>\<open>new Date()\<close>), \<open>today\<close> the day the rate limit
  procedures count for, \<open>new_expires_at\<close> the expiry time the table default gives a
  new invitation (the schema is not among the sources), and \<open>admin_missing\<close> says
  that \<^verbatim>\<open>createSupabaseAdmin()\<close> returned no client. The caller of a handler is the
  user id \<^verbatim>\<open>requireAuth\<close> returns, or \<open>None\<close> when it throws; a throw inside a
  handler ends in its catch-all answer \<open>InternalError\<close>.
\<close>

datatype store_call =
    ListInvitations | FindUser | InsertInvitation | FetchInvitation
  | InsertMember | UpdateInvitation | DeleteInvitation
  | FetchTeam | FindMemberUser | CreateUser | AddMember | AddMessage
  | CheckLimit | UpdateLimit

record env =
  now :: nat
  today :: nat
  new_expires_at :: nat
  admin_missing :: bool
  failing :: "store_call list"

datatype error =
    InternalError
  | MissingFields
  | InvalidRole
  | InvalidEmail
  | InvalidAction
  | ServiceConfiguration
  | PermissionDenied
  | InvalidRecipient
  | AlreadyMember
  | DuplicatePending
  | RateLimited
  | TeamNotFound
  | NotFound
  | AlreadyResolved inv_status
  | Expired
  | StoreFailure store_call

datatype response =
    Invitations "team_invitation list"
  | Created team_invitation
  | Resolved string string
  | Deleted
  | MemberAdded nat "nat list"

text \<open>\<^verbatim>\<open>.single()\<close>: the row when exactly one row matches, no data otherwise.\<close>

fun single :: "'a list \<Rightarrow> 'a option" where
  "single [x] = Some x"
| "single _ = None"

definition fresh_id :: "nat list \<Rightarrow> nat" where
  "fresh_id ids = Suc (fold max ids 0)"

definition update_invitations ::
  "(team_invitation \<Rightarrow> team_invitation) \<Rightarrow> nat \<Rightarrow> store \<Rightarrow> store" where
  "update_invitations f invitationId s =
     s\<lparr>team_invitations :=
         map (\<lambda>i. if inv_id i = invitationId then f i else i) (team_invitations s)\<rparr>"

definition create_notification :: "notification \<Rightarrow> store \<Rightarrow> store" where
  "create_notification n s = s\<lparr>notifications := notifications s @ [n]\<rparr>"

section \<open>Resolving an invitation: PUT\<close>

record put_request =
  u_invitationId :: "nat option"
  u_action :: string

definition finish_update ::
  "env \<Rightarrow> nat \<Rightarrow> string \<Rightarrow> inv_status \<Rightarrow> team \<Rightarrow> store \<Rightarrow> (error + response) \<times> store" where
  "finish_update e invitationId action st tm s =
     (if UpdateInvitation \<in> set (failing e) then (Inl (StoreFailure UpdateInvitation), s)
      else (Inr (Resolved action (team_name tm)),
            update_invitations (\<lambda>i. i\<lparr>status := st, updated_at := now e\<rparr>) invitationId s))"

definition accepted_member :: "env \<Rightarrow> team_invitation \<Rightarrow> team_member" where
  "accepted_member e invitation =
     \<lparr>m_team_id = team_id invitation, m_user_id = invitee_id invitation,
      m_role = inv_role invitation, m_joined_at = Some (now e), m_created_at = None\<rparr>"

definition member_added :: "team_invitation \<Rightarrow> notification" where
  "member_added invitation =
     \<lparr>target_user_id = inviter_id invitation, notification_type = ''member_added'',
      notification_title = ''Invitation Accepted'', data_team_id = team_id invitation,
      data_invitation_id = None\<rparr>"

definition invitation_rejected :: "team_invitation \<Rightarrow> notification" where
  "invitation_rejected invitation =
     \<lparr>target_user_id = inviter_id invitation, notification_type = ''invitation_rejected'',
      notification_title = ''Invitation Declined'', data_team_id = team_id invitation,
      data_invitation_id = None\<rparr>"

definition invitation_cancelled :: "team_invitation \<Rightarrow> notification" where
  "invitation_cancelled invitation =
     \<lparr>target_user_id = invitee_id invitation, notification_type = ''invitation_cancelled'',
      notification_title = ''Invitation Cancelled'', data_team_id = team_id invitation,
      data_invitation_id = None\<rparr>"

text \<open>
  The branch of PUT for a pending invitation that has not expired. The fetched row
  carries its team through the foreign key \<^verbatim>\<open>team_invitations_team_id_fkey\<close>; reading
  \<^verbatim>\<open>invitation.team.name\<close> of a row without team throws, and the handler answers
  with its catch-all error. On accept the membership row is inserted first, then the
  notification is emitted, then the invitation is updated.
\<close>

definition resolve_pending ::
  "env \<Rightarrow> nat \<Rightarrow> string \<Rightarrow> team_invitation \<Rightarrow> store \<Rightarrow> (error + response) \<times> store" where
  "resolve_pending e invitationId action invitation s =
     (let joined = single [t \<leftarrow> teams s. tid t = team_id invitation] in
      if action = ''accept'' then
        (if InsertMember \<in> set (failing e) then (Inl (StoreFailure InsertMember), s)
         else
          (let s1 = s\<lparr>team_members := team_members s @ [accepted_member e invitation]\<rparr>
           in case joined of None \<Rightarrow> (Inl InternalError, s1)
              | Some tm \<Rightarrow>
                  finish_update e invitationId action accepted tm
                    (create_notification (member_added invitation) s1)))
      else if action = ''reject'' then
        (case joined of None \<Rightarrow> (Inl InternalError, s)
         | Some tm \<Rightarrow>
             finish_update e invitationId action rejected tm
               (create_notification (invitation_rejected invitation) s))
      else
        (case joined of None \<Rightarrow> (Inl InternalError, s)
         | Some tm \<Rightarrow>
             finish_update e invitationId action cancelled tm
               (create_notification (invitation_cancelled invitation) s)))"

definition resolve_found ::
  "env \<Rightarrow> nat \<Rightarrow> nat \<Rightarrow> string \<Rightarrow> team_invitation \<Rightarrow> store \<Rightarrow> (error + response) \<times> store" where
  "resolve_found e user invitationId action invitation s =
     (if action = ''cancel'' \<and> inviter_id invitation \<noteq> user
        then (Inl PermissionDenied, s)
      else if (action = ''accept'' \<or> action = ''reject'') \<and> invitee_id invitation \<noteq> user
        then (Inl PermissionDenied, s)
      else if status invitation \<noteq> pending
        then (Inl (AlreadyResolved (status invitation)), s)
      else if expires_at invitation < now e
        then (Inl Expired, update_invitations (\<lambda>i. i\<lparr>status := expired\<rparr>) invitationId s)
      else resolve_pending e invitationId action invitation s)"

definition fetch_invitation :: "env \<Rightarrow> nat \<Rightarrow> store \<Rightarrow> team_invitation option" where
  "fetch_invitation e invitationId s =
     (if FetchInvitation \<in> set (failing e) then None
      else single [i \<leftarrow> team_invitations s. inv_id i = invitationId])"

definition PUT ::
  "env \<Rightarrow> nat option \<Rightarrow> put_request \<Rightarrow> store \<Rightarrow> (error + response) \<times> store" where
  "PUT e caller req s =
    (case caller of None \<Rightarrow> (Inl InternalError, s) | Some user \<Rightarrow>
     (case u_invitationId req of None \<Rightarrow> (Inl MissingFields, s) | Some invitationId \<Rightarrow>
       if u_action req = [] then (Inl MissingFields, s)
       else if u_action req \<notin> set [''accept'', ''reject'', ''cancel''] then (Inl InvalidAction, s)
       else if admin_missing e then (Inl ServiceConfiguration, s)
       else
        (case fetch_invitation e invitationId s of
           None \<Rightarrow> (Inl NotFound, s)
         | Some invitation \<Rightarrow> resolve_found e user invitationId (u_action req) invitation s)))"


section \<open>Authorization and rate limiting procedures\<close>

text \<open>
  Modelled from the spec: the order of roles owner > admin > editor > viewer of
  section 4.1, used by the procedure \<^verbatim>\<open>can_assign_role\<close>, which is not among the
  sources.
\<close>

definition role_rank :: "string \<Rightarrow> nat" where
  "role_rank r =
     (if r = ''owner'' then 4 else if r = ''admin'' then 3
      else if r = ''editor'' then 2 else if r = ''viewer'' then 1 else 0)"

text \<open>
  Modelled from the spec: the lookup \<open>roleOf\<close> of section 4.1 is not among the
  sources. It gives the role of a user in a team, or none without membership.
\<close>

definition roleOf :: "store \<Rightarrow> nat \<Rightarrow> nat \<Rightarrow> string option" where
  "roleOf s teamId userId =
     map_option m_role
       (find (\<lambda>m. m_team_id m = teamId \<and> m_user_id m = userId) (team_members s))"

text \<open>
  Modelled from the spec: the stored procedure \<^verbatim>\<open>can_assign_role\<close> is not among the
  sources. Section 4.1: true iff the acting user is the team owner, or the acting
  user's own role in the team outranks the target role and the acting user holds
  at least admin; no membership gives \<open>False\<close>.
\<close>

definition can_assign_role :: "store \<Rightarrow> nat \<Rightarrow> nat \<Rightarrow> string \<Rightarrow> bool" where
  "can_assign_role s teamId actingUser targetRole =
     (list_ex (\<lambda>t. tid t = teamId \<and> owner_id t = actingUser) (teams s) \<or>
      (case roleOf s teamId actingUser of
         None \<Rightarrow> False
       | Some r \<Rightarrow> role_rank targetRole < role_rank r \<and> role_rank ''admin'' \<le> role_rank r))"

text \<open>
  Modelled from the spec: the rate state behind the stored procedures
  \<^verbatim>\<open>check_invitation_limit\<close> and \<^verbatim>\<open>update_invitation_limit\<close>, which are not among
  the sources. Section 3: per (user, day), the distinct teams for which that user
  has issued invitations. A row \<open>(u, d, t)\<close> of \<open>invitation_limits\<close> records that
  user \<open>u\<close> issued an invitation for team \<open>t\<close> on day \<open>d\<close>.
\<close>

definition teams_invited :: "store \<Rightarrow> nat \<Rightarrow> nat \<Rightarrow> nat list" where
  "teams_invited s u d =
     remdups (map (\<lambda>(u', d', t). t) (filter (\<lambda>(u', d', t). u' = u \<and> d' = d) (invitation_limits s)))"

text \<open>
  Modelled from the spec: the stored procedure \<^verbatim>\<open>check_invitation_limit\<close> is not
  among the sources. Section 4.2: a create is refused when the rate state of
  (inviter, today) has already reached 2 distinct teams and the requested team is
  not among them.
\<close>

definition check_invitation_limit :: "store \<Rightarrow> nat \<Rightarrow> nat \<Rightarrow> nat \<Rightarrow> bool" where
  "check_invitation_limit s d u t =
     (length (teams_invited s u d) < 2 \<or> t \<in> set (teams_invited s u d))"

text \<open>
  Modelled from the spec: the stored procedure \<^verbatim>\<open>update_invitation_limit\<close> is not
  among the sources. Sections 3 and 4.2: a successful create counts its team in the
  rate state of (inviter, today); the state holds distinct teams, so a team already
  counted is not counted again.
\<close>

definition update_invitation_limit :: "nat \<Rightarrow> nat \<Rightarrow> nat \<Rightarrow> store \<Rightarrow> store" where
  "update_invitation_limit d u t s =
     (if t \<in> set (teams_invited s u d) then s
      else s\<lparr>invitation_limits := invitation_limits s @ [(u, d, t)]\<rparr>)"

section \<open>Creating an invitation: POST\<close>

text \<open>
  Strings are lists of code units below 256. \<open>js_space\<close> is the class \<^verbatim>\<open>\s\<close> on
  that range; \<open>email_regex_test\<close> is the test of
  \<^verbatim>\<open>/^[^\s@]+@[^\s@]+\.[^\s@]+$/\<close>: a non-empty local part, one \<^verbatim>\<open>@\<close>, and a rest
  with a dot that is neither its first nor its last character, none of them with
  white space.
\<close>

definition js_space :: "char \<Rightarrow> bool" where
  "js_space c = (c \<in> set [CHR 0x09, CHR 0x0A, CHR 0x0B, CHR 0x0C, CHR 0x0D, CHR 0x20, CHR 0xA0])"

definition email_regex_test :: "string \<Rightarrow> bool" where
  "email_regex_test x =
     (let local = takeWhile (\<lambda>c. c \<noteq> CHR ''@'') x; rest = drop (length local) x
      in local \<noteq> [] \<and> rest \<noteq> [] \<and>
         list_all (\<lambda>c. \<not> js_space c \<and> c \<noteq> CHR ''@'') (local @ tl rest) \<and>
         CHR ''.'' \<in> set (butlast (tl (tl rest))))"

record post_request =
  p_teamId :: "nat option"
  p_inviteeEmail :: string
  p_role :: "string option"
  p_personalMessage :: "string option"

definition existing_member :: "store \<Rightarrow> nat \<Rightarrow> nat \<Rightarrow> team_member option" where
  "existing_member s teamId userId =
     single [m \<leftarrow> team_members s. m_team_id m = teamId \<and> m_user_id m = userId]"

definition existing_invitation :: "store \<Rightarrow> nat \<Rightarrow> nat \<Rightarrow> team_invitation option" where
  "existing_invitation s teamId userId =
     single [i \<leftarrow> team_invitations s.
               team_id i = teamId \<and> invitee_id i = userId \<and> status i = pending]"

definition find_user :: "store \<Rightarrow> string \<Rightarrow> user_profile option" where
  "find_user s inviteeEmail = single [p \<leftarrow> user_profiles s. email p = inviteeEmail]"

definition new_invitation ::
  "env \<Rightarrow> nat \<Rightarrow> nat \<Rightarrow> string \<Rightarrow> string \<Rightarrow> string option \<Rightarrow> user_profile \<Rightarrow> store
     \<Rightarrow> team_invitation" where
  "new_invitation e user teamId inviteeEmail role msg inviteeUser s =
     \<lparr>inv_id = fresh_id (map inv_id (team_invitations s)), team_id = teamId,
      inviter_id = user, invitee_id = pid inviteeUser, invitee_email = inviteeEmail,
      inv_role = role, personal_message = msg, status = pending,
      created_at = now e, updated_at = now e, expires_at = new_expires_at e\<rparr>"

definition limit_updated :: "env \<Rightarrow> nat \<Rightarrow> nat \<Rightarrow> store \<Rightarrow> store" where
  "limit_updated e user teamId s =
     (if UpdateLimit \<in> set (failing e) then s
      else update_invitation_limit (today e) user teamId s)"

definition create_invitation ::
  "env \<Rightarrow> nat \<Rightarrow> nat \<Rightarrow> string \<Rightarrow> string \<Rightarrow> string option \<Rightarrow> user_profile \<Rightarrow> store
     \<Rightarrow> (error + response) \<times> store" where
  "create_invitation e user teamId inviteeEmail role msg inviteeUser s =
     (if existing_member s teamId (pid inviteeUser) \<noteq> None then (Inl AlreadyMember, s)
      else if existing_invitation s teamId (pid inviteeUser) \<noteq> None
        then (Inl DuplicatePending, s)
      else if CheckLimit \<in> set (failing e) \<or> \<not> check_invitation_limit s (today e) user teamId
        then (Inl RateLimited, s)
      else
       (case single [t \<leftarrow> teams s. tid t = teamId] of
          None \<Rightarrow> (Inl TeamNotFound, s)
        | Some tm \<Rightarrow>
           if InsertInvitation \<in> set (failing e)
             then (Inl (StoreFailure InsertInvitation), s)
           else
            (let invitation = new_invitation e user teamId inviteeEmail role msg inviteeUser s
             in (Inr (Created invitation),
                 create_notification
                   \<lparr>target_user_id = pid inviteeUser,
                    notification_type = ''team_invitation'',
                    notification_title = ''Team Invitation: '' @ team_name tm,
                    data_team_id = teamId,
                    data_invitation_id = Some (inv_id invitation)\<rparr>
                   (limit_updated e user teamId
                      (s\<lparr>team_invitations := team_invitations s @ [invitation]\<rparr>))))))"

definition POST ::
  "env \<Rightarrow> nat option \<Rightarrow> post_request \<Rightarrow> store \<Rightarrow> (error + response) \<times> store" where
  "POST e caller req s =
    (case caller of None \<Rightarrow> (Inl InternalError, s) | Some user \<Rightarrow>
     (case p_teamId req of None \<Rightarrow> (Inl MissingFields, s) | Some teamId \<Rightarrow>
      (let inviteeEmail = p_inviteeEmail req;
           role = (case p_role req of None \<Rightarrow> ''viewer'' | Some r \<Rightarrow> r)
       in
        if inviteeEmail = [] then (Inl MissingFields, s)
        else if role \<notin> set [''viewer'', ''editor'', ''admin''] then (Inl InvalidRole, s)
        else if \<not> email_regex_test inviteeEmail then (Inl InvalidEmail, s)
        else if admin_missing e then (Inl ServiceConfiguration, s)
        else if \<not> can_assign_role s teamId user role then (Inl PermissionDenied, s)
        else if FindUser \<in> set (failing e) then (Inl (StoreFailure FindUser), s)
        else
         (case find_user s inviteeEmail of
            None \<Rightarrow> (Inl InvalidRecipient, s)
          | Some inviteeUser \<Rightarrow>
              create_invitation e user teamId inviteeEmail role (p_personalMessage req)
                inviteeUser s))))"

section \<open>Listing and deleting invitations: GET, DELETE\<close>

record get_request =
  g_type :: "string option"
  g_status :: "string option"

definition status_name :: "inv_status \<Rightarrow> string" where
  "status_name st =
     (case st of pending \<Rightarrow> ''pending'' | accepted \<Rightarrow> ''accepted'' | rejected \<Rightarrow> ''rejected''
      | cancelled \<Rightarrow> ''cancelled'' | expired \<Rightarrow> ''expired'')"

definition param_or_all :: "string option \<Rightarrow> string" where
  "param_or_all p = (case p of None \<Rightarrow> ''all'' | Some v \<Rightarrow> if v = [] then ''all'' else v)"

definition GET ::
  "env \<Rightarrow> nat option \<Rightarrow> get_request \<Rightarrow> store \<Rightarrow> (error + response) \<times> store" where
  "GET e caller req s =
    (case caller of None \<Rightarrow> (Inl InternalError, s) | Some user \<Rightarrow>
     (let type = param_or_all (g_type req); st = param_or_all (g_status req) in
      if admin_missing e then (Inl ServiceConfiguration, s)
      else if ListInvitations \<in> set (failing e) then (Inl (StoreFailure ListInvitations), s)
      else
       (let q0 = rev (sort_key created_at (team_invitations s));
            q1 = (if type = ''sent'' then [i \<leftarrow> q0. inviter_id i = user]
                  else if type = ''received'' then [i \<leftarrow> q0. invitee_id i = user]
                  else [i \<leftarrow> q0. inviter_id i = user \<or> invitee_id i = user]);
            q2 = (if st \<noteq> ''all'' then [i \<leftarrow> q1. status_name (status i) = st] else q1)
        in (Inr (Invitations q2), s))))"


section \<open>Adding a member directly: POST of teams/members\<close>








text \<open>
  \<^verbatim>\<open>toUpperCase()\<close> on a string of one code unit below 256: the letters a to z
  and the Latin-1 letters 0xE0 to 0xFE (but not the division sign 0xF7) move down
  by 32, the sharp s 0xDF becomes SS, the micro sign 0xB5 and the y with diaeresis
  0xFF get their capitals U+039C and U+0178, every other code unit stays.
  \<open>generated_name\<close> is
  \<^verbatim>\<open>email.split('@')[0].charAt(0).toUpperCase() + email.split('@')[0].slice(1)\<close>.
\<close>

definition toUpperCase :: "nat \<Rightarrow> nat list" where
  "toUpperCase c =
     (if (97 \<le> c \<and> c \<le> 122) \<or> (224 \<le> c \<and> c \<le> 254 \<and> c \<noteq> 247) then [c - 32]
      else if c = 223 then [83, 83]
      else if c = 181 then [924]
      else if c = 255 then [376]
      else [c])"

definition code_units :: "string \<Rightarrow> nat list" where
  "code_units x = map of_char x"

definition generated_name :: "string \<Rightarrow> nat list" where
  "generated_name addr =
     (case takeWhile (\<lambda>c. c \<noteq> CHR ''@'') addr of
        [] \<Rightarrow> []
      | c # cs \<Rightarrow> toUpperCase (of_char c) @ code_units cs)"






section \<open>Sequences of requests\<close>




text \<open>The pending invitations of a store have pairwise different (team, invitee) pairs.\<close>

definition pair_of :: "team_invitation \<Rightarrow> nat \<times> nat" where
  "pair_of i = (team_id i, invitee_id i)"

definition one_pending_per_pair :: "store \<Rightarrow> bool" where
  "one_pending_per_pair s =
     distinct (map pair_of [i \<leftarrow> team_invitations s. status i = pending])"

section \<open>The chat client: typing indicators\<close>

text \<open>
  The component \<^verbatim>\<open>TeamChat\<close> keeps the typing flags in \<^verbatim>\<open>isTyping\<close> and one timer
  handle per sender in \<^verbatim>\<open>typingTimeoutsRef\<close>; both are objects keyed by user id,
  here association lists read with \<open>map_of\<close>. The timers of the runtime are the
  list \<open>timers\<close>: \<^verbatim>\<open>setTimeout\<close> adds a timer under a new handle, due after the
  delay, \<^verbatim>\<open>clearTimeout\<close> removes the timer of a handle, and \<open>advance\<close> lets the
  clock reach a time and runs the callbacks that are due by then. The callback of
  a typing timer sets the flag of its sender to false.
\<close>

record typing_signal =
  s_userId :: nat
  s_teamId :: nat
  s_isTyping :: bool

record message_data =
  d_id :: nat
  d_senderId :: nat
  d_teamId :: nat
  d_content :: string

record timer =
  t_handle :: nat
  t_due :: nat
  t_sender :: nat

record client =
  user_id :: "nat option"
  team_room :: nat
  messages :: "message_data list"
  isTyping :: "(nat \<times> bool) list"
  typingTimeouts :: "(nat \<times> nat) list"
  timers :: "timer list"
  next_handle :: nat
  clock :: nat

definition assign :: "'k \<Rightarrow> 'v \<Rightarrow> ('k \<times> 'v) list \<Rightarrow> ('k \<times> 'v) list" where
  "assign k v xs = (k, v) # [p \<leftarrow> xs. fst p \<noteq> k]"

definition clearTimeout :: "nat \<Rightarrow> client \<Rightarrow> client" where
  "clearTimeout h c = c\<lparr>timers := [x \<leftarrow> timers c. t_handle x \<noteq> h]\<rparr>"

definition setTimeout :: "nat \<Rightarrow> nat \<Rightarrow> client \<Rightarrow> client" where
  "setTimeout sender delay c =
     c\<lparr>timers := timers c @
           [\<lparr>t_handle = next_handle c, t_due = clock c + delay, t_sender = sender\<rparr>],
       next_handle := Suc (next_handle c)\<rparr>"

definition handleTyping :: "typing_signal \<Rightarrow> client \<Rightarrow> client" where
  "handleTyping data c =
     (if s_teamId data = team_room c \<and> Some (s_userId data) \<noteq> user_id c then
        (let c1 = c\<lparr>isTyping := assign (s_userId data) (s_isTyping data) (isTyping c)\<rparr>;
             c2 = (case map_of (typingTimeouts c1) (s_userId data) of
                     None \<Rightarrow> c1 | Some h \<Rightarrow> clearTimeout h c1)
         in if s_isTyping data
            then (setTimeout (s_userId data) 3000 c2)
                   \<lparr>typingTimeouts := assign (s_userId data) (next_handle c2) (typingTimeouts c2)\<rparr>
            else c2)
      else c)"

definition handleNewMessage :: "message_data \<Rightarrow> client \<Rightarrow> client" where
  "handleNewMessage data c =
     (if d_teamId data = team_room c then
        (let c1 = c\<lparr>messages := messages c @ [data]\<rparr>
         in case map_of (typingTimeouts c1) (d_senderId data) of
              None \<Rightarrow> c1
            | Some h \<Rightarrow>
                (clearTimeout h c1)\<lparr>isTyping := assign (d_senderId data) False (isTyping c1)\<rparr>)
      else c)"

definition fire :: "timer \<Rightarrow> client \<Rightarrow> client" where
  "fire x c = c\<lparr>isTyping := assign (t_sender x) False (isTyping c)\<rparr>"

definition advance :: "nat \<Rightarrow> client \<Rightarrow> client" where
  "advance t c =
     fold fire [x \<leftarrow> timers c. t_due x \<le> t]
       (c\<lparr>timers := [x \<leftarrow> timers c. \<not> t_due x \<le> t], clock := max (clock c) t\<rparr>)"

datatype event = Typing typing_signal | NewMessage message_data

fun sender_of :: "event \<Rightarrow> nat" where
  "sender_of (Typing data) = s_userId data"
| "sender_of (NewMessage data) = d_senderId data"

fun handle_event :: "event \<Rightarrow> client \<Rightarrow> client" where
  "handle_event (Typing data) c = handleTyping data c"
| "handle_event (NewMessage data) c = handleNewMessage data c"

text \<open>Events arrive with their times; the clock reaches the time, then the handler runs.\<close>

fun deliver :: "(nat \<times> event) list \<Rightarrow> client \<Rightarrow> client" where
  "deliver [] c = c"
| "deliver ((t, ev) # evs) c = deliver evs (handle_event ev (advance t c))"

definition handles_known :: "client \<Rightarrow> bool" where
  "handles_known c =
     (list_all (\<lambda>p. snd p < next_handle c) (typingTimeouts c) \<and>
      list_all (\<lambda>x. t_handle x < next_handle c) (timers c))"

text \<open>
  The timer with handle \<open>h\<close>, due at \<open>d\<close>, set for sender \<open>X\<close> is still pending and
  no other sender's entry holds its handle, or the flag of \<open>X\<close> is already false.
\<close>

definition awaiting :: "nat \<Rightarrow> nat \<Rightarrow> nat \<Rightarrow> client \<Rightarrow> bool" where
  "awaiting X h d c =
     (h < next_handle c \<and>
      list_all (\<lambda>p. fst p = X \<or> snd p \<noteq> h) (typingTimeouts c) \<and>
      (map_of (isTyping c) X = Some False \<or>
       \<lparr>t_handle = h, t_due = d, t_sender = X\<rparr> \<in> set (timers c)))"

definition signal_typing :: "nat \<Rightarrow> client \<Rightarrow> typing_signal" where
  "signal_typing X c = \<lparr>s_userId = X, s_teamId = team_room c, s_isTyping = True\<rparr>"

text \<open>The component when it mounts for user \<open>u\<close> and team \<open>r\<close>.\<close>

definition initial_client :: "nat option \<Rightarrow> nat \<Rightarrow> client" where
  "initial_client u r =
     \<lparr>user_id = u, team_room = r, messages = [], isTyping = [], typingTimeouts = [],
      timers = [], next_handle = 1, clock = 0\<rparr>"

text \<open>
  \<open>client1\<close>: user 1 watches room 10; user 2 signalled typing at time 0, its timer
  with handle 1 is pending. Two events of user 3 follow.
\<close>

definition client1 :: client where
  "client1 = \<lparr>user_id = Some 1, team_room = 10, messages = [], isTyping = [(2, True)],
              typingTimeouts = [(2, 1)],
              timers = [\<lparr>t_handle = 1, t_due = 3000, t_sender = 2\<rparr>],
              next_handle = 2, clock = 0\<rparr>"

definition events3 :: "(nat \<times> event) list" where
  "events3 =
     [(1500, Typing \<lparr>s_userId = 3, s_teamId = 10, s_isTyping = True\<rparr>),
      (1900, NewMessage \<lparr>d_id = 7, d_senderId = 3, d_teamId = 10, d_content = ''hi''\<rparr>)]"

section \<open>A small store for concrete runs\<close>

text \<open>
  Team 10 is owned by user 1, user 2 has an account and a pending invitation to
  team 10 as editor, user 3 is a bystander; the clock reads 1000.
\<close>

definition env0 :: env where
  "env0 = \<lparr>now = 1000, today = 0, new_expires_at = 9000, admin_missing = False, failing = []\<rparr>"

definition inv0 :: team_invitation where
  "inv0 = \<lparr>inv_id = 1, team_id = 10, inviter_id = 1, invitee_id = 2,
           invitee_email = ''b@x.io'', inv_role = ''editor'', personal_message = None,
           status = pending, created_at = 500, updated_at = 500, expires_at = 5000\<rparr>"

definition team0 :: team where
  "team0 = \<lparr>tid = 10, team_name = ''T'', owner_id = 1, is_public = True\<rparr>"

definition profile2 :: user_profile where
  "profile2 = \<lparr>pid = 2, email = ''b@x.io'', full_name = [66], profile_status = ''online'',
               last_active = 0\<rparr>"

definition req0 :: post_request where
  "req0 = \<lparr>p_teamId = Some 10, p_inviteeEmail = ''b@x.io'', p_role = Some ''editor'',
           p_personalMessage = None\<rparr>"

definition store0 :: store where
  "store0 =
     \<lparr>teams = [team0],
      user_profiles =
        [\<lparr>pid = 1, email = ''a@x.io'', full_name = [65], profile_status = ''online'',
          last_active = 0\<rparr>, profile2],
      team_members =
        [\<lparr>m_team_id = 10, m_user_id = 1, m_role = ''owner'', m_joined_at = Some 0,
          m_created_at = None\<rparr>],
      team_invitations = [inv0],
      chat_messages = [],
      notifications = [],
      invitation_limits = [(1, 0, 10)]\<rparr>"

definition inv_done :: team_invitation where
  "inv_done = inv0\<lparr>status := accepted\<rparr>"

definition store_done :: store where
  "store_done = store0\<lparr>team_invitations := [inv_done]\<rparr>"

definition store_accepted :: store where
  "store_accepted =
     store0\<lparr>team_members := team_members store0 @
               [\<lparr>m_team_id = 10, m_user_id = 2, m_role = ''editor'', m_joined_at = Some 1000,
                 m_created_at = None\<rparr>],
            notifications :=
               [\<lparr>target_user_id = 1, notification_type = ''member_added'',
                 notification_title = ''Invitation Accepted'', data_team_id = 10,
                 data_invitation_id = None\<rparr>],
            team_invitations := [inv0\<lparr>status := accepted, updated_at := 1000\<rparr>]\<rparr>"





definition env_late :: env where
  "env_late = env0\<lparr>now := 6000\<rparr>"








section \<open>The email test\<close>

text \<open>
  \<open>email_regex_test\<close> accepts exactly the strings of the shape local part,
  \<^verbatim>\<open>@\<close>, domain part, dot, rest, with three non-empty parts free of white space
  and of \<^verbatim>\<open>@\<close>.
\<close>

lemma email_regex_test_iff:
  "email_regex_test x \<longleftrightarrow>
     (\<exists>a b c. x = a @ CHR ''@'' # b @ CHR ''.'' # c \<and> a \<noteq> [] \<and> b \<noteq> [] \<and> c \<noteq> [] \<and>
        list_all (\<lambda>ch. \<not> js_space ch \<and> ch \<noteq> CHR ''@'') (a @ b @ c))"
proof
  let ?ok = "\<lambda>ch. \<not> js_space ch \<and> ch \<noteq> CHR ''@''"
  let ?a = "takeWhile (\<lambda>ch. ch \<noteq> CHR ''@'') x"
  let ?rest = "drop (length ?a) x"
  assume "email_regex_test x"
  then have a: "?a \<noteq> []" and rest: "?rest \<noteq> []"
    and ok: "list_all ?ok (?a @ tl ?rest)"
    and dot: "CHR ''.'' \<in> set (butlast (tl (tl ?rest)))"
    by (simp_all add: email_regex_test_def Let_def)
  have rest_eq: "?rest = dropWhile (\<lambda>ch. ch \<noteq> CHR ''@'') x"
    by (simp add: dropWhile_eq_drop)
  with rest have "hd ?rest = CHR ''@''"
    using hd_dropWhile [of "\<lambda>ch. ch \<noteq> CHR ''@''" x] by simp
  with rest have r: "?rest = CHR ''@'' # tl ?rest"
    by (cases ?rest) simp_all
  let ?d = "tl ?rest"
  from dot have tl_d: "tl ?d \<noteq> []" by auto
  then have d: "?d = hd ?d # tl ?d" by (cases ?d) simp_all
  from dot obtain m1 m2 where m: "butlast (tl ?d) = m1 @ CHR ''.'' # m2"
    by (auto dest: split_list)
  from tl_d have "tl ?d = butlast (tl ?d) @ [last (tl ?d)]" by simp
  with m have tl_eq: "tl ?d = m1 @ CHR ''.'' # (m2 @ [last (tl ?d)])" by simp
  have x: "x = ?a @ ?rest" unfolding rest_eq by simp
  have d_eq: "?d = (hd ?d # m1) @ CHR ''.'' # (m2 @ [last (tl ?d)])"
    using d tl_eq by (metis append_Cons)
  have "x = ?a @ CHR ''@'' # (hd ?d # m1) @ CHR ''.'' # (m2 @ [last (tl ?d)])"
    using x r d_eq by metis
  moreover have "list_all ?ok (?a @ (hd ?d # m1) @ (m2 @ [last (tl ?d)]))"
  proof -
    from ok have "list_all ?ok ?a" and "list_all ?ok ?d" by simp_all
    from this(2) d_eq have "list_all ?ok ((hd ?d # m1) @ CHR ''.'' # (m2 @ [last (tl ?d)]))"
      by metis
    with \<open>list_all ?ok ?a\<close> show ?thesis by simp
  qed
  ultimately show "\<exists>a b c. x = a @ CHR ''@'' # b @ CHR ''.'' # c \<and> a \<noteq> [] \<and> b \<noteq> [] \<and>
      c \<noteq> [] \<and> list_all ?ok (a @ b @ c)"
    using a by blast
next
  let ?ok = "\<lambda>ch. \<not> js_space ch \<and> ch \<noteq> CHR ''@''"
  assume "\<exists>a b c. x = a @ CHR ''@'' # b @ CHR ''.'' # c \<and> a \<noteq> [] \<and> b \<noteq> [] \<and> c \<noteq> [] \<and>
        list_all ?ok (a @ b @ c)"
  then obtain a b c where x: "x = a @ CHR ''@'' # b @ CHR ''.'' # c"
    and ne: "a \<noteq> []" "b \<noteq> []" "c \<noteq> []" and ok: "list_all ?ok (a @ b @ c)"
    by blast
  from ok have "\<forall>ch \<in> set a. ch \<noteq> CHR ''@''" by (simp add: list_all_iff)
  then have tw: "takeWhile (\<lambda>ch. ch \<noteq> CHR ''@'') x = a"
    unfolding x by (simp add: takeWhile_append2)
  have rest: "drop (length a) x = CHR ''@'' # b @ CHR ''.'' # c"
    unfolding x by simp
  from ne(2) obtain b0 b' where b: "b = b0 # b'" by (cases b) auto
  from ne(3) have c: "c = butlast c @ [last c]" by simp
  have "butlast (b' @ CHR ''.'' # c) = b' @ CHR ''.'' # butlast c"
    using ne(3) by (simp add: butlast_append)
  then have dot: "CHR ''.'' \<in> set (butlast (tl (b @ CHR ''.'' # c)))"
    by (simp add: b)
  have js: "\<not> js_space CHR ''.''" by (simp add: js_space_def)
  from ok js have "list_all ?ok (a @ b @ CHR ''.'' # c)" by simp
  with ne dot show "email_regex_test x"
    unfolding email_regex_test_def Let_def tw rest by simp
qed

section \<open>Properties of the invitation handlers\<close>

subsection \<open>Who may resolve an invitation\<close>

lemma single_filter_distinct:
  assumes "distinct (map f xs)" and "x \<in> set xs"
  shows "single [y \<leftarrow> xs. f y = f x] = Some x"
  using assms
proof (induction xs)
  case Nil
  then show ?case by simp
next
  case (Cons a xs)
  show ?case
  proof (cases "a = x")
    case True
    from Cons.prems True have "\<forall>y \<in> set xs. f y \<noteq> f x"
      by (auto simp: image_iff)
    then have "[y \<leftarrow> xs. f y = f x] = []"
      by (simp add: filter_empty_conv)
    with True show ?thesis by simp
  next
    case False
    with Cons.prems have "f a \<noteq> f x" and "x \<in> set xs" and "distinct (map f xs)"
      by auto
    with Cons.IH show ?thesis by simp
  qed
qed

lemma put_found:
  assumes "fetch_invitation e invitationId s = Some invitation"
    and "action \<in> {''accept'', ''reject'', ''cancel''}"
    and "\<not> admin_missing e"
  shows "PUT e (Some user) \<lparr>u_invitationId = Some invitationId, u_action = action\<rparr> s
           = resolve_found e user invitationId action invitation s"
proof -
  from assms(2) have "action \<noteq> []" and "action \<in> set [''accept'', ''reject'', ''cancel'']"
    by auto
  with assms(1,3) show ?thesis
    unfolding PUT_def by simp
qed

lemma fetch_stored:
  assumes "invitation \<in> set (team_invitations s)"
    and "distinct (map inv_id (team_invitations s))"
    and "FetchInvitation \<notin> set (failing e)"
  shows "fetch_invitation e (inv_id invitation) s = Some invitation"
  using single_filter_distinct [OF assms(2,1)] assms(3)
  by (simp add: fetch_invitation_def)

text \<open>
  C9. A resolve call on a stored invitation fails with PermissionDenied and leaves
  the store as it was when the acting user is not the invitee (accept, reject) or
  not the inviter (cancel); hence a call that succeeds was made by the invitee
  (accept, reject) or by the inviter (cancel). The invitation is read by its key,
  and the store answers the read.
\<close>

theorem C9_resolve_permission:
  assumes stored: "invitation \<in> set (team_invitations s)"
    and keys: "distinct (map inv_id (team_invitations s))"
    and pend: "status invitation = pending"
    and act: "action \<in> {''accept'', ''reject'', ''cancel''}"
    and avail: "\<not> admin_missing e" "FetchInvitation \<notin> set (failing e)"
    and req: "req = \<lparr>u_invitationId = Some (inv_id invitation), u_action = action\<rparr>"
  shows "((action = ''cancel'' \<and> user \<noteq> inviter_id invitation) \<or>
          (action \<noteq> ''cancel'' \<and> user \<noteq> invitee_id invitation)
            \<longrightarrow> PUT e (Some user) req s = (Inl PermissionDenied, s))
       \<and> (\<forall>r s'. PUT e (Some user) req s = (Inr r, s') \<longrightarrow>
             (if action = ''cancel'' then user = inviter_id invitation
              else user = invitee_id invitation))"
proof -
  have put: "PUT e (Some user) req s
               = resolve_found e user (inv_id invitation) action invitation s"
    unfolding req
    by (rule put_found [OF fetch_stored [OF stored keys avail(2)] act avail(1)])
  have denied: "PUT e (Some user) req s = (Inl PermissionDenied, s)"
    if "(action = ''cancel'' \<and> user \<noteq> inviter_id invitation) \<or>
        (action \<noteq> ''cancel'' \<and> user \<noteq> invitee_id invitation)"
    using that act by (auto simp: put resolve_found_def)
  have "if action = ''cancel'' then user = inviter_id invitation
        else user = invitee_id invitation"
    if "PUT e (Some user) req s = (Inr r, s')" for r s'
  proof (rule ccontr)
    assume "\<not> ?thesis"
    then have "PUT e (Some user) req s = (Inl PermissionDenied, s)"
      by (intro denied) (auto split: if_splits)
    with that show False by simp
  qed
  with denied show ?thesis by blast
qed

theorem C9_resolve_permission_witness:
  "inv0 \<in> set (team_invitations store0)
   \<and> distinct (map inv_id (team_invitations store0))
   \<and> status inv0 = pending
   \<and> \<not> admin_missing env0 \<and> FetchInvitation \<notin> set (failing env0)
   \<and> 3 \<noteq> invitee_id inv0
   \<and> PUT env0 (Some 3) \<lparr>u_invitationId = Some (inv_id inv0), u_action = ''accept''\<rparr> store0
       = (Inl PermissionDenied, store0)"
proof -
  have h: "inv0 \<in> set (team_invitations store0)"
      "distinct (map inv_id (team_invitations store0))"
      "status inv0 = pending"
      "''accept'' \<in> {''accept'', ''reject'', ''cancel''}"
      "\<not> admin_missing env0" "FetchInvitation \<notin> set (failing env0)"
      "3 \<noteq> invitee_id inv0"
    by (simp_all add: store0_def inv0_def env0_def)
  from C9_resolve_permission [OF h(1-6) refl, of 3] h show ?thesis
    by simp
qed

subsection \<open>Resolving an invitation that is no longer pending\<close>

lemma update_invitations_rows:
  "team_invitations (update_invitations f iid s)
     = map (\<lambda>i. if inv_id i = iid then f i else i) (team_invitations s)"
  by (simp add: update_invitations_def)

lemma updated_row:
  assumes "i \<in> set (team_invitations (update_invitations f iid s))"
  obtains j where "j \<in> set (team_invitations s)"
    and "i = (if inv_id j = iid then f j else j)"
proof -
  from assms have "i \<in> (\<lambda>j. if inv_id j = iid then f j else j) ` set (team_invitations s)"
    unfolding update_invitations_rows set_map .
  then show thesis
    by (rule imageE) (rule that)
qed

lemma finish_update_success:
  assumes "finish_update e iid action st tm s = (Inr r, s1)"
    and "st \<noteq> pending"
  shows "\<forall>i \<in> set (team_invitations s1). inv_id i = iid \<longrightarrow> status i \<noteq> pending"
proof -
  from assms(1)
  have s1: "s1 = update_invitations (\<lambda>i. i\<lparr>status := st, updated_at := now e\<rparr>) iid s"
    by (simp add: finish_update_def split: if_splits)
  show ?thesis
  proof (intro ballI impI)
    fix i
    assume mem: "i \<in> set (team_invitations s1)" and iid: "inv_id i = iid"
    from mem [unfolded s1] obtain j where "j \<in> set (team_invitations s)" and
      i: "i = (if inv_id j = iid then j\<lparr>status := st, updated_at := now e\<rparr> else j)"
      by (rule updated_row)
    show "status i \<noteq> pending"
    proof (cases "inv_id j = iid")
      case True
      with i assms(2) show ?thesis by simp
    next
      case False
      with i iid show ?thesis by simp
    qed
  qed
qed

lemma resolve_pending_success:
  assumes "resolve_pending e iid action invitation s = (Inr r, s1)"
  shows "\<forall>i \<in> set (team_invitations s1). inv_id i = iid \<longrightarrow> status i \<noteq> pending"
proof -
  from assms have "\<exists>st tm s'. finish_update e iid action st tm s' = (Inr r, s1) \<and> st \<noteq> pending"
    by (auto simp: resolve_pending_def Let_def split: if_splits option.splits)
  then obtain st tm s' where
    "finish_update e iid action st tm s' = (Inr r, s1)" and "st \<noteq> pending"
    by blast
  then show ?thesis by (rule finish_update_success)
qed

lemma resolve_found_success:
  assumes "resolve_found e user iid action invitation s = (Inr r, s1)"
  shows "resolve_pending e iid action invitation s = (Inr r, s1)"
  using assms by (simp add: resolve_found_def split: if_splits)

lemma put_success:
  assumes "PUT e caller \<lparr>u_invitationId = Some iid, u_action = action\<rparr> s = (Inr r, s1)"
  shows "\<forall>i \<in> set (team_invitations s1). inv_id i = iid \<longrightarrow> status i \<noteq> pending"
proof -
  from assms have "\<exists>user invitation. resolve_found e user iid action invitation s = (Inr r, s1)"
    by (auto simp: PUT_def split: option.splits if_splits)
  then obtain user invitation where
    "resolve_found e user iid action invitation s = (Inr r, s1)"
    by blast
  then show ?thesis
    by (intro resolve_pending_success resolve_found_success)
qed

lemma resolve_found_not_pending:
  assumes "status invitation \<noteq> pending"
  shows "resolve_found e user iid action invitation s =
           (Inl (if (action = ''cancel'' \<and> inviter_id invitation \<noteq> user) \<or>
                    ((action = ''accept'' \<or> action = ''reject'') \<and> invitee_id invitation \<noteq> user)
                 then PermissionDenied else AlreadyResolved (status invitation)), s)"
  using assms by (simp add: resolve_found_def)

lemma put_not_pending:
  assumes "\<forall>i. fetch_invitation e iid s = Some i \<longrightarrow> status i \<noteq> pending"
  shows "\<exists>err. PUT e caller \<lparr>u_invitationId = Some iid, u_action = action\<rparr> s = (Inl err, s)"
proof (cases "fetch_invitation e iid s")
  case None
  then show ?thesis
    by (simp add: PUT_def split: option.splits)
next
  case (Some invitation)
  with assms have "status invitation \<noteq> pending" by simp
  from resolve_found_not_pending [OF this] Some show ?thesis
    by (simp add: PUT_def split: option.splits)
qed

lemma fetch_in_store:
  assumes "fetch_invitation e iid s = Some i"
  shows "i \<in> set (team_invitations s) \<and> inv_id i = iid"
proof -
  from assms have "single [j \<leftarrow> team_invitations s. inv_id j = iid] = Some i"
    by (simp add: fetch_invitation_def split: if_splits)
  then have "[j \<leftarrow> team_invitations s. inv_id j = iid] = [i]"
    by (cases "[j \<leftarrow> team_invitations s. inv_id j = iid]" rule: single.cases) auto
  then have "i \<in> set [j \<leftarrow> team_invitations s. inv_id j = iid]" by simp
  then show ?thesis by simp
qed

text \<open>
  C2 (amended). A resolve call on a stored invitation whose status is not pending
  always fails and leaves the store as it was, so it inserts no membership row. With
  a valid action and an answering store the error is PermissionDenied when the acting
  user is not the party entitled to the action (the inviter for cancel, the invitee
  for accept and reject) and AlreadyResolved otherwise; Expired is never returned
  for such an invitation. After a resolve call has succeeded, every further resolve
  call on the same invitation id fails and changes nothing.
\<close>

theorem C2_not_pending_fails:
  assumes stored: "invitation \<in> set (team_invitations s)"
    and keys: "distinct (map inv_id (team_invitations s))"
    and nonpending: "status invitation \<noteq> pending"
  shows "(\<exists>err. PUT e caller \<lparr>u_invitationId = Some (inv_id invitation), u_action = action\<rparr> s
                  = (Inl err, s))
       \<and> (action \<in> {''accept'', ''reject'', ''cancel''} \<and> \<not> admin_missing e \<and>
            FetchInvitation \<notin> set (failing e) \<longrightarrow>
          PUT e (Some user) \<lparr>u_invitationId = Some (inv_id invitation), u_action = action\<rparr> s
            = (Inl (if (action = ''cancel'' \<and> inviter_id invitation \<noteq> user) \<or>
                       ((action = ''accept'' \<or> action = ''reject'') \<and>
                        invitee_id invitation \<noteq> user)
                    then PermissionDenied else AlreadyResolved (status invitation)), s))
       \<and> (\<forall>e1 c1 a1 r s1 e2 c2 a2.
            PUT e1 c1 \<lparr>u_invitationId = Some iid, u_action = a1\<rparr> s0 = (Inr r, s1) \<longrightarrow>
            (\<exists>err. PUT e2 c2 \<lparr>u_invitationId = Some iid, u_action = a2\<rparr> s1 = (Inl err, s1)))"
proof (intro conjI allI impI)
  have "status i \<noteq> pending" if "fetch_invitation e (inv_id invitation) s = Some i" for i
  proof -
    from that have "fetch_invitation e (inv_id invitation) s = Some invitation"
      using fetch_stored [OF stored keys] by (auto simp: fetch_invitation_def split: if_splits)
    with that nonpending show ?thesis by simp
  qed
  then show "\<exists>err. PUT e caller \<lparr>u_invitationId = Some (inv_id invitation), u_action = action\<rparr> s
                 = (Inl err, s)"
    by (intro put_not_pending) blast
next
  assume a: "action \<in> {''accept'', ''reject'', ''cancel''} \<and> \<not> admin_missing e \<and>
             FetchInvitation \<notin> set (failing e)"
  then have "PUT e (Some user) \<lparr>u_invitationId = Some (inv_id invitation), u_action = action\<rparr> s
               = resolve_found e user (inv_id invitation) action invitation s"
    by (intro put_found fetch_stored stored keys) auto
  then show "PUT e (Some user) \<lparr>u_invitationId = Some (inv_id invitation), u_action = action\<rparr> s
            = (Inl (if (action = ''cancel'' \<and> inviter_id invitation \<noteq> user) \<or>
                       ((action = ''accept'' \<or> action = ''reject'') \<and>
                        invitee_id invitation \<noteq> user)
                    then PermissionDenied else AlreadyResolved (status invitation)), s)"
    by (simp only: resolve_found_not_pending [OF nonpending])
next
  fix e1 c1 a1 r s1 e2 c2 a2
  assume "PUT e1 c1 \<lparr>u_invitationId = Some iid, u_action = a1\<rparr> s0 = (Inr r, s1)"
  from put_success [OF this]
  have "\<forall>i. fetch_invitation e2 iid s1 = Some i \<longrightarrow> status i \<noteq> pending"
    using fetch_in_store by blast
  then show "\<exists>err. PUT e2 c2 \<lparr>u_invitationId = Some iid, u_action = a2\<rparr> s1 = (Inl err, s1)"
    by (rule put_not_pending)
qed

theorem C2_not_pending_counterexample:
  "status inv_done = accepted
   \<and> inv_done \<in> set (team_invitations store_done)
   \<and> PUT env0 (Some 3) \<lparr>u_invitationId = Some (inv_id inv_done), u_action = ''accept''\<rparr> store_done
       = (Inl PermissionDenied, store_done)
   \<and> PermissionDenied \<noteq> AlreadyResolved (status inv_done)
   \<and> PermissionDenied \<noteq> Expired"
  by (simp add: PUT_def fetch_invitation_def resolve_found_def store_done_def inv_done_def
      store0_def inv0_def env0_def)

lemmas put_defs =
  PUT_def fetch_invitation_def resolve_found_def resolve_pending_def finish_update_def
  create_notification_def update_invitations_def accepted_member_def member_added_def
  invitation_rejected_def invitation_cancelled_def

lemmas store0_defs = store0_def inv0_def env0_def team0_def profile2_def req0_def

lemma accept_store0:
  "PUT env0 (Some 2) \<lparr>u_invitationId = Some 1, u_action = ''accept''\<rparr> store0
     = (Inr (Resolved ''accept'' ''T''), store_accepted)"
  by (simp add: put_defs store_accepted_def store0_defs)

theorem C2_not_pending_fails_witness:
  "inv_done \<in> set (team_invitations store_done)
   \<and> distinct (map inv_id (team_invitations store_done))
   \<and> status inv_done \<noteq> pending
   \<and> ''accept'' \<in> {''accept'', ''reject'', ''cancel''} \<and> \<not> admin_missing env0
   \<and> FetchInvitation \<notin> set (failing env0)
   \<and> PUT env0 (Some 2) \<lparr>u_invitationId = Some (inv_id inv_done), u_action = ''accept''\<rparr> store_done
       = (Inl (AlreadyResolved accepted), store_done)
   \<and> PUT env0 (Some 2) \<lparr>u_invitationId = Some 1, u_action = ''accept''\<rparr> store0
       = (Inr (Resolved ''accept'' ''T''), store_accepted)
   \<and> (\<exists>err. PUT env0 (Some 2) \<lparr>u_invitationId = Some 1, u_action = ''accept''\<rparr> store_accepted
               = (Inl err, store_accepted))"
proof -
  have h: "inv_done \<in> set (team_invitations store_done)"
      "distinct (map inv_id (team_invitations store_done))"
      "status inv_done \<noteq> pending"
    by (simp_all add: store_done_def inv_done_def)
  have a: "''accept'' \<in> {''accept'', ''reject'', ''cancel''} \<and> \<not> admin_missing env0
           \<and> FetchInvitation \<notin> set (failing env0)"
    by (simp add: env0_def)
  note c2 = C2_not_pending_fails [OF h, of env0 "Some 2" "''accept''" 2 1 store0]
  from c2 a have
    "PUT env0 (Some 2) \<lparr>u_invitationId = Some (inv_id inv_done), u_action = ''accept''\<rparr> store_done
       = (Inl (AlreadyResolved accepted), store_done)"
    by (simp add: inv_done_def inv0_def)
  moreover from c2 accept_store0 have
    "\<exists>err. PUT env0 (Some 2) \<lparr>u_invitationId = Some 1, u_action = ''accept''\<rparr> store_accepted
               = (Inl err, store_accepted)"
    by blast
  ultimately show ?thesis
    using h a accept_store0 by simp
qed

subsection \<open>Accepting an invitation\<close>

lemma resolve_pending_accept:
  assumes "single [t \<leftarrow> teams s. tid t = team_id invitation] = Some tm"
    and "InsertMember \<notin> set (failing e)"
  shows "resolve_pending e k ''accept'' invitation s =
           finish_update e k ''accept'' accepted tm
             (s\<lparr>team_members := team_members s @ [accepted_member e invitation],
                notifications := notifications s @ [member_added invitation]\<rparr>)"
  using assms
  by (simp add: resolve_pending_def create_notification_def)

lemma resolve_found_pending:
  assumes "status invitation = pending" and "\<not> expires_at invitation < now e"
    and "invitee_id invitation = user"
  shows "resolve_found e user k ''accept'' invitation s
           = resolve_pending e k ''accept'' invitation s"
  using assms by (simp add: resolve_found_def)

text \<open>
  C4. For a stored pending invitation that has not expired, whose team row exists,
  and a store that reports no error, the accept call of the invitee succeeds; the
  resulting store is the old one with exactly three changes: the membership row
  (team, invitee, requested role) is appended, a \<open>member_added\<close> notification for
  the inviter is emitted, and the invitation has status accepted.
\<close>

theorem C4_accept_postcondition:
  assumes stored: "invitation \<in> set (team_invitations s)"
    and keys: "distinct (map inv_id (team_invitations s))"
    and pend: "status invitation = pending"
    and fresh: "\<not> expires_at invitation < now e"
    and team: "single [t \<leftarrow> teams s. tid t = team_id invitation] = Some tm"
    and avail: "\<not> admin_missing e" "FetchInvitation \<notin> set (failing e)"
      "InsertMember \<notin> set (failing e)" "UpdateInvitation \<notin> set (failing e)"
  shows "PUT e (Some (invitee_id invitation))
           \<lparr>u_invitationId = Some (inv_id invitation), u_action = ''accept''\<rparr> s
         = (Inr (Resolved ''accept'' (team_name tm)),
            s\<lparr>team_members := team_members s @
                 [\<lparr>m_team_id = team_id invitation, m_user_id = invitee_id invitation,
                   m_role = inv_role invitation, m_joined_at = Some (now e),
                   m_created_at = None\<rparr>],
              notifications := notifications s @
                 [\<lparr>target_user_id = inviter_id invitation,
                   notification_type = ''member_added'',
                   notification_title = ''Invitation Accepted'',
                   data_team_id = team_id invitation, data_invitation_id = None\<rparr>],
              team_invitations :=
                 map (\<lambda>i. if inv_id i = inv_id invitation
                           then i\<lparr>status := accepted, updated_at := now e\<rparr> else i)
                   (team_invitations s)\<rparr>)"
proof -
  have "PUT e (Some (invitee_id invitation))
           \<lparr>u_invitationId = Some (inv_id invitation), u_action = ''accept''\<rparr> s
        = resolve_found e (invitee_id invitation) (inv_id invitation) ''accept'' invitation s"
    by (intro put_found fetch_stored stored keys avail) simp
  also have "\<dots> = resolve_pending e (inv_id invitation) ''accept'' invitation s"
    by (rule resolve_found_pending [OF pend fresh refl])
  also have "\<dots> = finish_update e (inv_id invitation) ''accept'' accepted tm
             (s\<lparr>team_members := team_members s @ [accepted_member e invitation],
                notifications := notifications s @ [member_added invitation]\<rparr>)"
    by (rule resolve_pending_accept [OF team avail(3)])
  finally show ?thesis
    using avail(4)
    by (simp add: finish_update_def update_invitations_def accepted_member_def
        member_added_def)
qed

theorem C4_accept_postcondition_witness:
  "inv0 \<in> set (team_invitations store0)
   \<and> distinct (map inv_id (team_invitations store0))
   \<and> status inv0 = pending
   \<and> \<not> expires_at inv0 < now env0
   \<and> single [t \<leftarrow> teams store0. tid t = team_id inv0] = Some team0
   \<and> \<not> admin_missing env0 \<and> failing env0 = []
   \<and> PUT env0 (Some 2) \<lparr>u_invitationId = Some 1, u_action = ''accept''\<rparr> store0
       = (Inr (Resolved ''accept'' ''T''), store_accepted)"
proof -
  have h: "inv0 \<in> set (team_invitations store0)"
      "distinct (map inv_id (team_invitations store0))"
      "status inv0 = pending"
      "\<not> expires_at inv0 < now env0"
      "single [t \<leftarrow> teams store0. tid t = team_id inv0] = Some team0"
      "\<not> admin_missing env0" "FetchInvitation \<notin> set (failing env0)"
      "InsertMember \<notin> set (failing env0)" "UpdateInvitation \<notin> set (failing env0)"
    by (simp_all add: store0_def inv0_def env0_def team0_def)
  have "failing env0 = []" by (simp add: env0_def)
  with C4_accept_postcondition [OF h] h show ?thesis
    by (simp add: store_accepted_def store0_def inv0_def env0_def team0_def)
qed

subsection \<open>What a failing accept leaves behind\<close>







subsection \<open>At most one pending invitation per (team, invitee)\<close>








lemma invitations_create_notification [simp]:
  "team_invitations (create_notification n s) = team_invitations s"
  by (simp add: create_notification_def)

lemma invitations_update_limit [simp]:
  "team_invitations (update_invitation_limit d u t s) = team_invitations s"
  by (simp add: update_invitation_limit_def)

lemma invitations_limit_updated [simp]:
  "team_invitations (limit_updated e u t s) = team_invitations s"
  by (simp add: limit_updated_def)








lemma one_pending_members [simp]:
  "one_pending_per_pair (s\<lparr>team_members := ms\<rparr>) = one_pending_per_pair s"
  by (simp add: one_pending_per_pair_def)

lemma one_pending_notification [simp]:
  "one_pending_per_pair (create_notification n s) = one_pending_per_pair s"
  by (simp add: one_pending_per_pair_def)











lemmas post_defs =
  POST_def create_invitation_def new_invitation_def find_user_def existing_member_def
  existing_invitation_def can_assign_role_def roleOf_def role_rank_def
  check_invitation_limit_def update_invitation_limit_def teams_invited_def
  email_regex_test_def js_space_def create_notification_def fresh_id_def


subsection \<open>The add-member handler and the row policies\<close>




lemma generated_name_samples:
  "generated_name ''z@x.io'' = [90]"
  "generated_name [CHR 0xE9, CHR ''m'', CHR ''@'', CHR ''x''] = [201, 109]"
  "generated_name [CHR 0xDF, CHR ''e'', CHR ''@'', CHR ''x''] = [83, 83, 101]"
  "generated_name [CHR 0xFF, CHR ''@'', CHR ''x''] = [376]"
  "generated_name ''@x.io'' = []"
  by (simp_all add: generated_name_def toUpperCase_def code_units_def)

subsection \<open>Which fields a handler writes\<close>

lemma update_invitations_other [simp]:
  "team_members (update_invitations f k s) = team_members s"
  "user_profiles (update_invitations f k s) = user_profiles s"
  by (simp_all add: update_invitations_def)

lemma create_notification_other [simp]:
  "team_members (create_notification n s) = team_members s"
  "user_profiles (create_notification n s) = user_profiles s"
  by (simp_all add: create_notification_def)

lemma limit_updated_other [simp]:
  "team_members (limit_updated e u t s) = team_members s"
  "user_profiles (limit_updated e u t s) = user_profiles s"
  by (simp_all add: limit_updated_def update_invitation_limit_def)

lemma finish_update_other [simp]:
  "team_members (snd (finish_update e k action st tm s)) = team_members s"
  "user_profiles (snd (finish_update e k action st tm s)) = user_profiles s"
  by (simp_all add: finish_update_def)












subsection \<open>Unknown recipients, direct adds, overdue invitations\<close>





text \<open>
  C7. At time 6000 the invitation \<open>inv0\<close> (pending, expires at 5000) is overdue.
  The listing still reports it with status pending, also under the filter
  \<^verbatim>\<open>status=pending\<close>, and a create call for the same pair is still refused as a
  duplicate of a pending invitation.
\<close>

theorem C7_overdue_read_as_pending:
  "status inv0 = pending \<and> expires_at inv0 < now env_late
   \<and> GET env_late (Some 2) \<lparr>g_type = None, g_status = Some ''pending''\<rparr> store0
       = (Inr (Invitations [inv0]), store0)
   \<and> POST env_late (Some 1) req0 store0 = (Inl DuplicatePending, store0)"
  by (simp add: GET_def Let_def param_or_all_def status_name_def post_defs env_late_def
      store0_defs)

subsection \<open>The daily limit of two teams\<close>






lemma limits_create_notification [simp]:
  "invitation_limits (create_notification n s) = invitation_limits s"
  by (simp add: create_notification_def)












section \<open>Properties of the chat client\<close>

subsection \<open>Typing indicators expire\<close>

lemma map_of_filter_key:
  "map_of [p \<leftarrow> xs. fst p \<noteq> k] k' = (if k' = k then None else map_of xs k')"
  by (induction xs) auto

lemma map_of_assign:
  "map_of (assign k v xs) k' = (if k' = k then Some v else map_of xs k')"
  by (simp add: assign_def map_of_filter_key)

lemma set_assign:
  "p \<in> set (assign k v xs) \<Longrightarrow> p = (k, v) \<or> (p \<in> set xs \<and> fst p \<noteq> k)"
  by (auto simp: assign_def)

lemma fire_fields [simp]:
  "timers (fire x c) = timers c" "typingTimeouts (fire x c) = typingTimeouts c"
  "next_handle (fire x c) = next_handle c" "clock (fire x c) = clock c"
  by (simp_all add: fire_def)

lemma fire_flag:
  "map_of (isTyping (fire x c)) X
     = (if t_sender x = X then Some False else map_of (isTyping c) X)"
  by (simp add: fire_def map_of_assign)

lemma fold_fire_fields [simp]:
  "timers (fold fire xs c) = timers c" "typingTimeouts (fold fire xs c) = typingTimeouts c"
  "next_handle (fold fire xs c) = next_handle c" "clock (fold fire xs c) = clock c"
  by (induction xs arbitrary: c) simp_all

lemma fold_fire_flag:
  "map_of (isTyping (fold fire xs c)) X
     = (if X \<in> t_sender ` set xs then Some False else map_of (isTyping c) X)"
proof (induction xs arbitrary: c rule: rev_induct)
  case Nil
  then show ?case by simp
next
  case (snoc x xs)
  then show ?case by (simp add: fire_flag)
qed

lemma advance_fields [simp]:
  "typingTimeouts (advance t c) = typingTimeouts c"
  "next_handle (advance t c) = next_handle c"
  "timers (advance t c) = [x \<leftarrow> timers c. \<not> t_due x \<le> t]"
  "clock (advance t c) = max (clock c) t"
  "team_room (advance t c) = team_room c" "user_id (advance t c) = user_id c"
proof -
  have "team_room (fold fire xs c') = team_room c'" "user_id (fold fire xs c') = user_id c'"
    for xs c'
    by (induction xs arbitrary: c') (simp_all add: fire_def)
  then show "team_room (advance t c) = team_room c" "user_id (advance t c) = user_id c"
    by (simp_all add: advance_def)
qed (simp_all add: advance_def)

lemma advance_flag:
  "map_of (isTyping (advance t c)) X
     = (if X \<in> t_sender ` set [x \<leftarrow> timers c. t_due x \<le> t] then Some False
        else map_of (isTyping c) X)"
  by (simp add: advance_def fold_fire_flag)

lemma advance_awaiting:
  assumes "awaiting X h d c"
  shows "awaiting X h d (advance t c)"
proof (cases "map_of (isTyping c) X = Some False")
  case True
  then have "map_of (isTyping (advance t c)) X = Some False"
    by (simp add: advance_flag)
  with assms show ?thesis by (simp add: awaiting_def)
next
  case False
  with assms have pending: "\<lparr>t_handle = h, t_due = d, t_sender = X\<rparr> \<in> set (timers c)"
    by (simp add: awaiting_def)
  show ?thesis
  proof (cases "d \<le> t")
    case True
    with pending have "\<lparr>t_handle = h, t_due = d, t_sender = X\<rparr>
        \<in> set [x \<leftarrow> timers c. t_due x \<le> t]"
      by simp
    then have "X \<in> t_sender ` set [x \<leftarrow> timers c. t_due x \<le> t]"
      by (rule rev_image_eqI) simp
    then have "map_of (isTyping (advance t c)) X = Some False"
      by (simp only: advance_flag if_True)
    with assms show ?thesis by (simp add: awaiting_def)
  next
    case False
    with pending have "\<lparr>t_handle = h, t_due = d, t_sender = X\<rparr> \<in> set (timers (advance t c))"
      by simp
    with assms show ?thesis by (simp add: awaiting_def)
  qed
qed

lemma advance_expired:
  assumes "awaiting X h d c" and "d \<le> t"
  shows "map_of (isTyping (advance t c)) X = Some False"
proof (cases "map_of (isTyping c) X = Some False")
  case True
  then show ?thesis by (simp add: advance_flag)
next
  case False
  with assms(1) have "\<lparr>t_handle = h, t_due = d, t_sender = X\<rparr> \<in> set (timers c)"
    by (simp add: awaiting_def)
  with assms(2) have "\<lparr>t_handle = h, t_due = d, t_sender = X\<rparr>
      \<in> set [x \<leftarrow> timers c. t_due x \<le> t]"
    by simp
  then have "X \<in> t_sender ` set [x \<leftarrow> timers c. t_due x \<le> t]"
    by (rule rev_image_eqI) simp
  then show ?thesis
    by (simp only: advance_flag if_True)
qed

lemma stored_handle_differs:
  assumes "awaiting X h d c" and "map_of (typingTimeouts c) Y = Some h'" and "Y \<noteq> X"
  shows "h' \<noteq> h"
proof -
  from assms(2) have "(Y, h') \<in> set (typingTimeouts c)"
    by (rule map_of_SomeD)
  moreover from assms(1) have "\<forall>p \<in> set (typingTimeouts c). fst p = X \<or> snd p \<noteq> h"
    by (simp add: awaiting_def list_all_iff)
  ultimately have "fst (Y, h') = X \<or> snd (Y, h') \<noteq> h" by blast
  with assms(3) show ?thesis by simp
qed

lemma awaiting_flag_other:
  assumes "awaiting X h d c" and "Y \<noteq> X"
  shows "awaiting X h d (c\<lparr>isTyping := assign Y v (isTyping c)\<rparr>)"
  using assms by (simp add: awaiting_def map_of_assign)

lemma awaiting_messages:
  assumes "awaiting X h d c"
  shows "awaiting X h d (c\<lparr>messages := ms\<rparr>)"
  using assms by (simp add: awaiting_def)

lemma awaiting_clear:
  assumes "awaiting X h d c" and "h' \<noteq> h"
  shows "awaiting X h d (clearTimeout h' c)"
  using assms by (auto simp: awaiting_def clearTimeout_def)

lemma awaiting_set:
  assumes "awaiting X h d c" and "Y \<noteq> X"
  shows "awaiting X h d
           ((setTimeout Y delay c)\<lparr>typingTimeouts := assign Y (next_handle c) (typingTimeouts c)\<rparr>)"
proof -
  from assms(1) have h: "h < next_handle c"
    and others: "\<forall>p \<in> set (typingTimeouts c). fst p = X \<or> snd p \<noteq> h"
    and flag: "map_of (isTyping c) X = Some False \<or>
               \<lparr>t_handle = h, t_due = d, t_sender = X\<rparr> \<in> set (timers c)"
    by (simp_all add: awaiting_def list_all_iff)
  have "fst p = X \<or> snd p \<noteq> h" if "p \<in> set (assign Y (next_handle c) (typingTimeouts c))" for p
  proof -
    from set_assign [OF that] consider "p = (Y, next_handle c)" | "p \<in> set (typingTimeouts c)"
      by blast
    then show ?thesis
    proof cases
      case 1
      with h show ?thesis by simp
    next
      case 2
      with others show ?thesis by blast
    qed
  qed
  then have "list_all (\<lambda>p. fst p = X \<or> snd p \<noteq> h) (assign Y (next_handle c) (typingTimeouts c))"
    by (simp add: list_all_iff)
  with h flag show ?thesis
    by (auto simp: awaiting_def setTimeout_def)
qed

lemma clearTimeout_fields [simp]:
  "typingTimeouts (clearTimeout h c) = typingTimeouts c"
  "next_handle (clearTimeout h c) = next_handle c"
  "isTyping (clearTimeout h c) = isTyping c"
  "clock (clearTimeout h c) = clock c"
  by (simp_all add: clearTimeout_def)

lemma handleTyping_awaiting:
  assumes "awaiting X h d c" and "s_userId data \<noteq> X"
  shows "awaiting X h d (handleTyping data c)"
proof (cases "s_teamId data = team_room c \<and> Some (s_userId data) \<noteq> user_id c")
  case False
  then have "handleTyping data c = c"
    unfolding handleTyping_def by (rule if_not_P)
  with assms(1) show ?thesis by simp
next
  case True
  let ?Y = "s_userId data"
  let ?c1 = "c\<lparr>isTyping := assign ?Y (s_isTyping data) (isTyping c)\<rparr>"
  let ?c2 = "case map_of (typingTimeouts ?c1) ?Y of None \<Rightarrow> ?c1 | Some h' \<Rightarrow> clearTimeout h' ?c1"
  have c1: "awaiting X h d ?c1"
    using assms by (rule awaiting_flag_other)
  have c2: "awaiting X h d ?c2"
  proof (cases "map_of (typingTimeouts ?c1) ?Y")
    case None
    with c1 show ?thesis by simp
  next
    case (Some h')
    from stored_handle_differs [OF c1 Some assms(2)] have "h' \<noteq> h" .
    with c1 have "awaiting X h d (clearTimeout h' ?c1)" by (rule awaiting_clear)
    with Some show ?thesis by simp
  qed
  have "handleTyping data c =
          (if s_isTyping data
           then (setTimeout ?Y 3000 ?c2)
                  \<lparr>typingTimeouts := assign ?Y (next_handle ?c2) (typingTimeouts ?c2)\<rparr>
           else ?c2)"
    unfolding handleTyping_def Let_def using True by (rule if_P)
  with c2 awaiting_set [OF c2 assms(2), of 3000] show ?thesis
    by simp
qed

lemma handleNewMessage_awaiting:
  assumes "awaiting X h d c" and "d_senderId data \<noteq> X"
  shows "awaiting X h d (handleNewMessage data c)"
proof (cases "d_teamId data = team_room c")
  case False
  then have "handleNewMessage data c = c"
    unfolding handleNewMessage_def by (rule if_not_P)
  with assms(1) show ?thesis by simp
next
  case True
  let ?Y = "d_senderId data"
  let ?c1 = "c\<lparr>messages := messages c @ [data]\<rparr>"
  have c1: "awaiting X h d ?c1"
    using assms(1) by (rule awaiting_messages)
  show ?thesis
  proof (cases "map_of (typingTimeouts ?c1) ?Y")
    case None
    with True c1 show ?thesis by (simp add: handleNewMessage_def)
  next
    case (Some h')
    from stored_handle_differs [OF c1 Some assms(2)] have "h' \<noteq> h" .
    with c1 have "awaiting X h d (clearTimeout h' ?c1)" by (rule awaiting_clear)
    from awaiting_flag_other [OF this assms(2), of False] Some True show ?thesis
      by (simp add: handleNewMessage_def)
  qed
qed

lemma deliver_awaiting:
  assumes "awaiting X h d c" and "list_all (\<lambda>p. sender_of (snd p) \<noteq> X) evs"
  shows "awaiting X h d (deliver evs c)"
  using assms
proof (induction evs arbitrary: c)
  case Nil
  then show ?case by simp
next
  case (Cons p evs)
  obtain t ev where p: "p = (t, ev)" by (cases p)
  from Cons.prems(2) p have ev: "sender_of ev \<noteq> X"
    and rest: "list_all (\<lambda>p. sender_of (snd p) \<noteq> X) evs"
    by simp_all
  from Cons.prems(1) have "awaiting X h d (advance t c)"
    by (rule advance_awaiting)
  with ev have "awaiting X h d (handle_event ev (advance t c))"
    by (cases ev) (simp_all add: handleTyping_awaiting handleNewMessage_awaiting)
  from Cons.IH [OF this rest] p show ?case by simp
qed

lemma handleTyping_true:
  assumes "team_room c = r" and "Some X \<noteq> user_id c"
  shows "handleTyping \<lparr>s_userId = X, s_teamId = r, s_isTyping = True\<rparr> c =
           (setTimeout X 3000
              (case map_of (typingTimeouts c) X of
                 None \<Rightarrow> c\<lparr>isTyping := assign X True (isTyping c)\<rparr>
               | Some h \<Rightarrow> clearTimeout h (c\<lparr>isTyping := assign X True (isTyping c)\<rparr>)))
            \<lparr>typingTimeouts := assign X (next_handle c) (typingTimeouts c)\<rparr>"
  using assms by (simp add: handleTyping_def Let_def split: option.splits)

lemma signal_received:
  assumes known: "handles_known c" and other: "Some X \<noteq> user_id c" and now: "clock c \<le> t0"
  shows "map_of (isTyping (handleTyping (signal_typing X c) (advance t0 c))) X = Some True"
    and "awaiting X (next_handle c) (t0 + 3000)
           (handleTyping (signal_typing X c) (advance t0 c))"
    and "map_of (typingTimeouts c) X = Some h0 \<Longrightarrow>
           list_all (\<lambda>x. t_handle x \<noteq> h0)
             (timers (handleTyping (signal_typing X c) (advance t0 c)))"
proof -
  let ?a = "advance t0 c"
  let ?a1 = "?a\<lparr>isTyping := assign X True (isTyping ?a)\<rparr>"
  let ?c2 = "case map_of (typingTimeouts c) X of None \<Rightarrow> ?a1 | Some h' \<Rightarrow> clearTimeout h' ?a1"
  let ?c1 = "handleTyping (signal_typing X c) (advance t0 c)"
  let ?h = "next_handle c"
  have c2: "next_handle ?c2 = ?h" "clock ?c2 = t0" "typingTimeouts ?c2 = typingTimeouts c"
    "map_of (isTyping ?c2) X = Some True"
    using now by (simp_all add: map_of_assign max_def split: option.splits)
  have "team_room ?a = team_room c" "Some X \<noteq> user_id ?a"
    using other by simp_all
  from handleTyping_true [OF this]
  have c1: "?c1 = (setTimeout X 3000 ?c2)\<lparr>typingTimeouts := assign X ?h (typingTimeouts c)\<rparr>"
    by (simp add: signal_typing_def)
  show "map_of (isTyping ?c1) X = Some True"
    using c2(4) by (simp add: c1 setTimeout_def)
  have timers: "timers ?c1 = timers ?c2 @ [\<lparr>t_handle = ?h, t_due = t0 + 3000, t_sender = X\<rparr>]"
    by (simp add: c1 setTimeout_def c2)
  have "fst p = X \<or> snd p \<noteq> ?h" if "p \<in> set (assign X ?h (typingTimeouts c))" for p
  proof -
    from set_assign [OF that] consider "p = (X, ?h)" | "p \<in> set (typingTimeouts c)"
      by blast
    then show ?thesis
    proof cases
      case 1
      then show ?thesis by simp
    next
      case 2
      with known have "snd p < ?h" by (simp add: handles_known_def list_all_iff)
      then show ?thesis by simp
    qed
  qed
  then have "list_all (\<lambda>p. fst p = X \<or> snd p \<noteq> ?h) (typingTimeouts ?c1)"
    by (simp add: c1 list_all_iff)
  moreover have "?h < next_handle ?c1"
    by (simp add: c1 setTimeout_def c2)
  ultimately show "awaiting X ?h (t0 + 3000) ?c1"
    by (simp add: awaiting_def timers)
  assume old: "map_of (typingTimeouts c) X = Some h0"
  then have "(X, h0) \<in> set (typingTimeouts c)" by (rule map_of_SomeD)
  with known have "h0 < ?h" by (auto simp: handles_known_def list_all_iff)
  moreover from old have "list_all (\<lambda>x. t_handle x \<noteq> h0) (timers ?c2)"
    by (simp add: clearTimeout_def list_all_iff)
  ultimately show "list_all (\<lambda>x. t_handle x \<noteq> h0) (timers ?c1)"
    by (simp add: timers)
qed

lemma handles_known_weaken:
  assumes "handles_known c" and "next_handle c \<le> next_handle c'"
    and "set (typingTimeouts c') \<subseteq> set (typingTimeouts c)"
    and "set (timers c') \<subseteq> set (timers c)"
  shows "handles_known c'"
  using assms by (fastforce simp: handles_known_def list_all_iff)

lemma advance_known:
  assumes "handles_known c"
  shows "handles_known (advance t c)"
  using assms by (rule handles_known_weaken) auto

lemma clear_known:
  assumes "handles_known c"
  shows "handles_known (clearTimeout h c)"
  using assms by (rule handles_known_weaken) (auto simp: clearTimeout_def)

lemma flag_known:
  assumes "handles_known c"
  shows "handles_known (c\<lparr>isTyping := f\<rparr>)"
  using assms by (rule handles_known_weaken) auto

lemma set_known:
  assumes "handles_known c"
  shows "handles_known
           ((setTimeout Y delay c)\<lparr>typingTimeouts := assign Y (next_handle c) (typingTimeouts c)\<rparr>)"
proof -
  from assms have a: "\<forall>p \<in> set (typingTimeouts c). snd p < next_handle c"
    and b: "\<forall>x \<in> set (timers c). t_handle x < next_handle c"
    by (simp_all add: handles_known_def list_all_iff)
  have "snd p < Suc (next_handle c)" if "p \<in> set (assign Y (next_handle c) (typingTimeouts c))"
    for p
  proof -
    from set_assign [OF that] consider "p = (Y, next_handle c)" | "p \<in> set (typingTimeouts c)"
      by blast
    then show ?thesis
    proof cases
      case 1
      then show ?thesis by simp
    next
      case 2
      with a have "snd p < next_handle c" by blast
      then show ?thesis by simp
    qed
  qed
  moreover from b have "\<forall>x \<in> set (timers c). t_handle x < Suc (next_handle c)"
    by (simp add: less_Suc_eq)
  ultimately show ?thesis
    by (simp add: handles_known_def list_all_iff setTimeout_def)
qed

lemma handleTyping_known:
  assumes "handles_known c"
  shows "handles_known (handleTyping data c)"
proof (cases "s_teamId data = team_room c \<and> Some (s_userId data) \<noteq> user_id c")
  case False
  then have "handleTyping data c = c"
    unfolding handleTyping_def by (rule if_not_P)
  with assms show ?thesis by simp
next
  case True
  let ?Y = "s_userId data"
  let ?c1 = "c\<lparr>isTyping := assign ?Y (s_isTyping data) (isTyping c)\<rparr>"
  let ?c2 = "case map_of (typingTimeouts ?c1) ?Y of None \<Rightarrow> ?c1 | Some h' \<Rightarrow> clearTimeout h' ?c1"
  have c1: "handles_known ?c1"
    using assms by (rule flag_known)
  have c2: "handles_known ?c2"
    by (cases "map_of (typingTimeouts ?c1) ?Y") (simp_all only: option.case c1 clear_known [OF c1])
  have "handleTyping data c =
          (if s_isTyping data
           then (setTimeout ?Y 3000 ?c2)
                  \<lparr>typingTimeouts := assign ?Y (next_handle ?c2) (typingTimeouts ?c2)\<rparr>
           else ?c2)"
    unfolding handleTyping_def Let_def using True by (rule if_P)
  with c2 set_known [OF c2, of ?Y 3000] show ?thesis
    by simp
qed

lemma handleNewMessage_known:
  assumes "handles_known c"
  shows "handles_known (handleNewMessage data c)"
proof -
  let ?c1 = "c\<lparr>messages := messages c @ [data]\<rparr>"
  have c1: "handles_known ?c1"
    using assms by (rule handles_known_weaken) auto
  have "handles_known ((clearTimeout h ?c1)\<lparr>isTyping := f\<rparr>)" for h f
    by (intro flag_known clear_known c1)
  with assms c1 show ?thesis
    by (simp add: handleNewMessage_def Let_def split: option.splits)
qed

lemma deliver_known:
  assumes "handles_known c"
  shows "handles_known (deliver evs c)"
  using assms
proof (induction evs arbitrary: c)
  case Nil
  then show ?case by simp
next
  case (Cons p evs)
  obtain t ev where p: "p = (t, ev)" by (cases p)
  from Cons.prems have "handles_known (advance t c)"
    by (rule advance_known)
  then have "handles_known (handle_event ev (advance t c))"
    by (cases ev) (simp_all add: handleTyping_known handleNewMessage_known)
  from Cons.IH [OF this] p show ?case by simp
qed

lemma reachable_known: "handles_known (deliver evs (initial_client u r))"
  by (rule deliver_known) (simp add: handles_known_def initial_client_def)

text \<open>
  C10. The clock is in milliseconds and a timer callback runs when the clock
  reaches its due time. On a client other than \<open>X\<close> whose stored timer handles were
  all given out before (as in every state reached after mounting, by
  \<open>reachable_known\<close>), a typing signal of \<open>X\<close> received at time \<open>t0\<close> shows \<open>X\<close> as
  typing; if the events that follow are typing signals and messages of other
  senders only, then at every time from \<open>t0 + 3000\<close> on the client shows \<open>X\<close> as not
  typing, with no stop signal received. The signal also removes the timer that an
  earlier signal of \<open>X\<close> had left, so the newest signal alone decides when the flag
  expires.
\<close>

theorem C10_typing_expires:
  assumes known: "handles_known c" and other: "Some X \<noteq> user_id c" and now: "clock c \<le> t0"
    and silent: "list_all (\<lambda>p. sender_of (snd p) \<noteq> X) evs" and late: "t0 + 3000 \<le> t"
  shows "map_of (isTyping (handleTyping (signal_typing X c) (advance t0 c))) X = Some True
       \<and> map_of (isTyping (advance t (deliver evs
             (handleTyping (signal_typing X c) (advance t0 c))))) X = Some False
       \<and> (map_of (typingTimeouts c) X = Some h0 \<longrightarrow>
            list_all (\<lambda>x. t_handle x \<noteq> h0)
              (timers (handleTyping (signal_typing X c) (advance t0 c))))"
proof (intro conjI impI)
  show "map_of (isTyping (handleTyping (signal_typing X c) (advance t0 c))) X = Some True"
    by (rule signal_received(1) [OF known other now])
  have "awaiting X (next_handle c) (t0 + 3000)
          (deliver evs (handleTyping (signal_typing X c) (advance t0 c)))"
    by (rule deliver_awaiting [OF signal_received(2) [OF known other now] silent])
  then show "map_of (isTyping (advance t (deliver evs
             (handleTyping (signal_typing X c) (advance t0 c))))) X = Some False"
    using late by (rule advance_expired)
  assume "map_of (typingTimeouts c) X = Some h0"
  then show "list_all (\<lambda>x. t_handle x \<noteq> h0)
              (timers (handleTyping (signal_typing X c) (advance t0 c)))"
    by (rule signal_received(3) [OF known other now])
qed

theorem C10_typing_expires_witness:
  "handles_known client1 \<and> Some 2 \<noteq> user_id client1 \<and> clock client1 \<le> 1000
   \<and> list_all (\<lambda>p. sender_of (snd p) \<noteq> 2) events3 \<and> 1000 + 3000 \<le> (4000::nat)
   \<and> map_of (typingTimeouts client1) 2 = Some 1
   \<and> map_of (isTyping (handleTyping (signal_typing 2 client1) (advance 1000 client1))) 2
       = Some True
   \<and> map_of (isTyping (advance 4000 (deliver events3
         (handleTyping (signal_typing 2 client1) (advance 1000 client1))))) 2 = Some False
   \<and> list_all (\<lambda>x. t_handle x \<noteq> 1)
        (timers (handleTyping (signal_typing 2 client1) (advance 1000 client1)))"
proof -
  have h: "handles_known client1" "Some 2 \<noteq> user_id client1" "clock client1 \<le> 1000"
      "list_all (\<lambda>p. sender_of (snd p) \<noteq> 2) events3" "1000 + 3000 \<le> (4000::nat)"
    by (simp_all add: handles_known_def client1_def events3_def)
  have old: "map_of (typingTimeouts client1) 2 = Some 1"
    by (simp add: client1_def)
  from C10_typing_expires [OF h, of 1] h old show ?thesis
    by simp
qed

end
